theory Spec2Isabelle
  imports Complex_Main "HOL-Library.Signed_Division"
begin

section \<open>AlphaStream: the multi-core round-robin message scheduler of App.tsx\<close>

text \<open>
  The scheduling core of the React component \<^verbatim>\<open>AlphaStream\<close> (src/src/App.tsx) is
  embedded as functions on an explicit state record. Conventions:
  \<^item> A JavaScript \<^verbatim>\<open>number\<close> that holds a time stamp, a latency or a metric is an
    \<^typ>\<open>int\<close>; one that is an array index, a loop counter or a core count is a
    \<^typ>\<open>nat\<close>. All values stay far below \<open>2^53\<close>, where the arithmetic of doubles on
    integers is exact.
  \<^item> \<^verbatim>\<open>Date.now()\<close>, \<^verbatim>\<open>Math.random()\<close> and \<^verbatim>\<open>generateId()\<close> are inputs: every
    handler takes the values they return as parameters.
  \<^item> The component keeps the queues and the core states twice: as React state
    (\<^verbatim>\<open>queues\<close>, \<^verbatim>\<open>coreStates\<close>) and as refs (\<^verbatim>\<open>queuesRef\<close>, \<^verbatim>\<open>coreStatesRef\<close>) that
    two effects copy from the state after a render. Both copies are fields of the
    state record. A handler changes the state only; the two effects are the function
    \<open>sync_refs\<close>, a step of its own, so a timer callback can run between a handler and
    the effects that follow its render, on refs that are behind the state.
  \<^item> The presentation state (\<^verbatim>\<open>tutorialStep\<close>, \<^verbatim>\<open>viewMode\<close>, the Gantt scroll ref) is
    left out.
\<close>

subsection \<open>Types\<close>

datatype ClientId = APEX | NOVA | ZEUS | FLUX

datatype MessageType = BUY | SELL | PING

text \<open>\<^verbatim>\<open>interface Message\<close>; the fields \<^verbatim>\<open>id\<close> and \<^verbatim>\<open>type\<close> are renamed, since \<open>id\<close> is
  the identity function of HOL.\<close>

record Message =
  msg_id :: string
  clientId :: ClientId
  content :: string
  timestamp :: int
  msg_type :: MessageType

text \<open>\<^verbatim>\<open>interface ProcessedLog extends Message\<close>\<close>

record ProcessedLog = Message +
  processedAt :: int
  latencyMs :: int
  coreId :: nat

text \<open>\<^verbatim>\<open>interface GanttBlock\<close>\<close>

record GanttBlock =
  gantt_id :: string
  gantt_clientId :: ClientId
  startTime :: int
  endTime :: int
  gantt_coreId :: nat

text \<open>An element of \<^verbatim>\<open>coreStates\<close>: \<^verbatim>\<open>{ clientIndex: number }\<close>\<close>

record CoreState =
  clientIndex :: nat

record Metrics =
  totalProcessed :: int
  avgLatency :: int
  activeNodes :: int

type_synonym Queues = "ClientId \<Rightarrow> Message list"

record System =
  configMode :: bool
  cpuCount :: nat
  queues :: Queues
  logs :: "ProcessedLog list"
  ganttHistory :: "GanttBlock list"
  coreStates :: "CoreState list"
  isProcessing :: bool
  autoInject :: bool
  tickRate :: int
  metrics :: Metrics
  queuesRef :: Queues
  coreStatesRef :: "CoreState list"

subsection \<open>Constants and the initial state\<close>

definition CLIENTS :: "ClientId list" where
  "CLIENTS = [APEX, NOVA, ZEUS, FLUX]"

text \<open>\<^verbatim>\<open>CLIENTS[i]\<close>: \<^verbatim>\<open>undefined\<close> (here \<open>None\<close>) when the index is out of range.\<close>

definition CLIENTS_at :: "nat \<Rightarrow> ClientId option" where
  "CLIENTS_at i = (if i < length CLIENTS then Some (CLIENTS ! i) else None)"

definition empty_queues :: Queues where
  "empty_queues = (\<lambda>c. [])"

definition zero_metrics :: Metrics where
  "zero_metrics = \<lparr>totalProcessed = 0, avgLatency = 0, activeNodes = 4\<rparr>"

text \<open>The arguments of the \<^verbatim>\<open>useState\<close> and \<^verbatim>\<open>useRef\<close> calls.\<close>

definition initial_state :: System where
  "initial_state =
     \<lparr>configMode = True, cpuCount = 1, queues = empty_queues, logs = [],
      ganttHistory = [], coreStates = [\<lparr>clientIndex = 0\<rparr>], isProcessing = False,
      autoInject = False, tickRate = 1200, metrics = zero_metrics,
      queuesRef = empty_queues, coreStatesRef = [\<lparr>clientIndex = 0\<rparr>]\<rparr>"

text \<open>The two effects \<^verbatim>\<open>queuesRef.current = queues\<close> and
  \<^verbatim>\<open>coreStatesRef.current = coreStates\<close>.\<close>

definition sync_refs :: "System \<Rightarrow> System" where
  "sync_refs s = s\<lparr>queuesRef := queues s, coreStatesRef := coreStates s\<rparr>"

definition synced :: "System \<Rightarrow> bool" where
  "synced s = (queuesRef s = queues s \<and> coreStatesRef s = coreStates s)"

subsection \<open>Configuration and reset\<close>

definition initializeSystem :: "nat \<Rightarrow> System \<Rightarrow> System" where
  "initializeSystem cores s =
     (let initialStates = map (\<lambda>i. \<lparr>clientIndex = i mod length CLIENTS\<rparr>) [0..<cores]
      in s\<lparr>cpuCount := cores, coreStates := initialStates,
            coreStatesRef := initialStates, configMode := False\<rparr>)"

definition resetSystem :: "System \<Rightarrow> System" where
  "resetSystem s =
     s\<lparr>isProcessing := False, autoInject := False, queues := empty_queues,
       logs := [], ganttHistory := [], metrics := zero_metrics, configMode := True\<rparr>"

text \<open>The click handlers of the two toggle buttons,
  \<^verbatim>\<open>setIsProcessing(!isProcessing)\<close> and \<^verbatim>\<open>setAutoInject(!autoInject)\<close>.\<close>

definition toggleProcessing :: "System \<Rightarrow> System" where
  "toggleProcessing s = s\<lparr>isProcessing := \<not> isProcessing s\<rparr>"

definition toggleAutoInject :: "System \<Rightarrow> System" where
  "toggleAutoInject s = s\<lparr>autoInject := \<not> autoInject s\<rparr>"

subsection \<open>Message injection\<close>

fun type_name :: "MessageType \<Rightarrow> string" where
  "type_name BUY = ''BUY''"
| "type_name SELL = ''SELL''"
| "type_name PING = ''PING''"

text \<open>\<^verbatim>\<open>addMessage(clientId)\<close>; \<open>newId\<close> is the result of \<^verbatim>\<open>generateId()\<close>, \<open>ty\<close> the type
  drawn at random, \<open>price\<close> the string \<^verbatim>\<open>(Math.random() * 1000 + 100).toFixed(2)\<close> and
  \<open>now\<close> the value of \<^verbatim>\<open>Date.now()\<close>.\<close>

definition addMessage :: "string \<Rightarrow> MessageType \<Rightarrow> string \<Rightarrow> int \<Rightarrow> ClientId \<Rightarrow> System \<Rightarrow> System" where
  "addMessage newId ty price now cid s =
     (let newMessage = \<lparr>msg_id = newId, clientId = cid,
                         content = type_name ty @ '' @ '' @ price,
                         timestamp = now, msg_type = ty\<rparr>
      in s\<lparr>queues := (queues s)(cid := queues s cid @ [newMessage])\<rparr>)"

subsection \<open>The scheduler tick\<close>

text \<open>The local variables of the interval callback.\<close>

record TickState =
  currentQueues :: Queues
  currentCoreStates :: "CoreState list"
  processedItems :: "ProcessedLog list"
  ganttItems :: "GanttBlock list"

text \<open>The body of the \<^verbatim>\<open>for\<close> loop for one \<open>coreId\<close>. \<open>gen coreId\<close> is the result of
  the call of \<^verbatim>\<open>generateId()\<close> in that iteration. A missing core state skips the
  iteration (\<^verbatim>\<open>continue\<close>); an index outside \<^verbatim>\<open>CLIENTS\<close> gives an undefined queue,
  which is skipped like an empty one.\<close>

definition core_iteration :: "int \<Rightarrow> int \<Rightarrow> (nat \<Rightarrow> string) \<Rightarrow> nat \<Rightarrow> TickState \<Rightarrow> TickState" where
  "core_iteration now rate gen cid t =
     (if length (currentCoreStates t) \<le> cid then t
      else
        let state = currentCoreStates t ! cid;
            t' = (case CLIENTS_at (clientIndex state) of
                    None \<Rightarrow> t
                  | Some client \<Rightarrow>
                      (case currentQueues t client of
                         [] \<Rightarrow> t
                       | msg # remaining \<Rightarrow>
                           t\<lparr>currentQueues := (currentQueues t)(client := remaining),
                             processedItems := processedItems t @
                               [\<lparr>msg_id = msg_id msg, clientId = clientId msg,
                                 content = content msg, timestamp = timestamp msg,
                                 msg_type = msg_type msg, processedAt = now,
                                 latencyMs = now - timestamp msg, coreId = cid\<rparr>],
                             ganttItems := ganttItems t @
                               [\<lparr>gantt_id = gen cid, gantt_clientId = client,
                                 startTime = now - rate, endTime = now,
                                 gantt_coreId = cid\<rparr>]\<rparr>))
        in t'\<lparr>currentCoreStates := (currentCoreStates t')
                 [cid := \<lparr>clientIndex = (clientIndex state + 1) mod length CLIENTS\<rparr>]\<rparr>)"

text \<open>The loop \<^verbatim>\<open>for (let coreId = 0; coreId < cpuCount; coreId++)\<close>, run on the list of
  the values that \<^verbatim>\<open>coreId\<close> takes.\<close>

fun core_loop :: "int \<Rightarrow> int \<Rightarrow> (nat \<Rightarrow> string) \<Rightarrow> nat list \<Rightarrow> TickState \<Rightarrow> TickState" where
  "core_loop now rate gen [] t = t"
| "core_loop now rate gen (cid # rest) t =
     core_loop now rate gen rest (core_iteration now rate gen cid t)"

text \<open>Steps 1 and 2 of the callback: the snapshot of the refs and the loop.\<close>

definition run_cores :: "int \<Rightarrow> (nat \<Rightarrow> string) \<Rightarrow> System \<Rightarrow> TickState" where
  "run_cores now gen s =
     core_loop now (tickRate s) gen [0..<cpuCount s]
       \<lparr>currentQueues = queuesRef s, currentCoreStates = coreStatesRef s,
        processedItems = [], ganttItems = []\<rparr>"

text \<open>\<^verbatim>\<open>Math.floor(x / y)\<close> on numbers that hold integers, as the floor of the real
  quotient. For \<open>y = 0\<close> JavaScript gives \<^verbatim>\<open>NaN\<close> or an infinity where HOL gives 0; the
  statements below use it with a positive divisor only.\<close>

definition floor_quotient :: "int \<Rightarrow> int \<Rightarrow> int" where
  "floor_quotient x y = \<lfloor>real_of_int x / real_of_int y\<rfloor>"

text \<open>The updater passed to \<^verbatim>\<open>setMetrics\<close>.\<close>

definition update_metrics :: "ProcessedLog list \<Rightarrow> Metrics \<Rightarrow> Metrics" where
  "update_metrics items prev =
     (let newTotal = totalProcessed prev + int (length items);
          batchLatency = foldl (\<lambda>sum item. sum + latencyMs item) 0 items;
          newAvg = floor_quotient (avgLatency prev * totalProcessed prev + batchLatency) newTotal
      in prev\<lparr>totalProcessed := newTotal, avgLatency := newAvg\<rparr>)"

text \<open>\<^verbatim>\<open>xs.slice(-n)\<close>: the last \<open>n\<close> elements, all of them when there are fewer.\<close>

definition slice_last :: "nat \<Rightarrow> 'a list \<Rightarrow> 'a list" where
  "slice_last n xs = drop (length xs - n) xs"

text \<open>The interval callback: snapshot, loop, then step 3 (the refs, the state, and the
  logs and metrics when the batch is not empty).\<close>

definition tick :: "int \<Rightarrow> (nat \<Rightarrow> string) \<Rightarrow> System \<Rightarrow> System" where
  "tick now gen s =
     (let t = run_cores now gen s;
          s1 = s\<lparr>queuesRef := currentQueues t, coreStatesRef := currentCoreStates t,
                 queues := currentQueues t, coreStates := currentCoreStates t\<rparr>
      in if length (processedItems t) > 0
         then s1\<lparr>logs := take 50 (processedItems t @ logs s),
                 ganttHistory := slice_last 100 (ganttHistory s @ ganttItems t),
                 metrics := update_metrics (processedItems t) (metrics s)\<rparr>
         else s1)"

subsection \<open>The two timers\<close>

text \<open>Each effect installs its interval only under its guard, so a timer event in a
  state where the guard fails changes nothing. No handler of the component has a
  \<^verbatim>\<open>throw\<close>: the result \<open>None\<close>, which stands for a rejected call, is never produced.\<close>

definition tick_timer :: "int \<Rightarrow> (nat \<Rightarrow> string) \<Rightarrow> System \<Rightarrow> System option" where
  "tick_timer now gen s =
     (if isProcessing s \<and> \<not> configMode s then Some (tick now gen s) else Some s)"

text \<open>\<open>randomClient\<close> is \<^verbatim>\<open>CLIENTS[Math.floor(Math.random() * CLIENTS.length)]\<close>.\<close>

definition inject_timer :: "string \<Rightarrow> MessageType \<Rightarrow> string \<Rightarrow> int \<Rightarrow> ClientId \<Rightarrow> System \<Rightarrow> System option" where
  "inject_timer newId ty price now randomClient s =
     (if autoInject s \<and> \<not> configMode s
      then Some (addMessage newId ty price now randomClient s)
      else Some s)"

subsection \<open>Runs of injections, effects and ticks\<close>

text \<open>A run is a list of steps: a call of \<^verbatim>\<open>addMessage\<close>, a run of the two ref effects
  after a render, or a call of the tick callback. The steps may come in any order: in
  particular a tick may follow an injection before the effects have run.\<close>

datatype action =
    Inject string MessageType string int ClientId
  | Effects
  | Tick int "nat \<Rightarrow> string"

fun perform :: "action \<Rightarrow> System \<Rightarrow> System" where
  "perform (Inject newId ty price now cid) s = addMessage newId ty price now cid s"
| "perform Effects s = sync_refs s"
| "perform (Tick now gen) s = tick now gen s"

fun run :: "action list \<Rightarrow> System \<Rightarrow> System" where
  "run [] s = s"
| "run (a # as) s = run as (perform a s)"

fun is_inject :: "action \<Rightarrow> bool" where
  "is_inject (Inject newId ty price now cid) = True"
| "is_inject Effects = False"
| "is_inject (Tick now gen) = False"

definition injected :: "action list \<Rightarrow> int" where
  "injected as = int (length (filter is_inject as))"

definition total_queued :: "Queues \<Rightarrow> int" where
  "total_queued q = int (sum_list (map (\<lambda>c. length (q c)) CLIENTS))"

text \<open>The records a run produces, newest first: the batch of every tick in front of
  the batches of the ticks before it. The time stamps of the ticks of a run, in the
  order of the run.\<close>

fun batch_of :: "action \<Rightarrow> System \<Rightarrow> ProcessedLog list" where
  "batch_of (Inject newId ty price now cid) s = []"
| "batch_of Effects s = []"
| "batch_of (Tick now gen) s = processedItems (run_cores now gen s)"

fun produced :: "action list \<Rightarrow> System \<Rightarrow> ProcessedLog list" where
  "produced [] s = []"
| "produced (a # as) s = produced as (perform a s) @ batch_of a s"

fun tick_times :: "action list \<Rightarrow> int list" where
  "tick_times [] = []"
| "tick_times (Inject newId ty price now cid # as) = tick_times as"
| "tick_times (Effects # as) = tick_times as"
| "tick_times (Tick now gen # as) = now # tick_times as"

text \<open>A run in which every tick starts with \<^verbatim>\<open>queuesRef\<close> equal to the state
  \<^verbatim>\<open>queues\<close>: the effects have run between the last injection and the tick.\<close>

fun ticks_see_state :: "action list \<Rightarrow> System \<Rightarrow> bool" where
  "ticks_see_state [] s = True"
| "ticks_see_state (Inject newId ty price now cid # as) s =
     ticks_see_state as (addMessage newId ty price now cid s)"
| "ticks_see_state (Effects # as) s = ticks_see_state as (sync_refs s)"
| "ticks_see_state (Tick now gen # as) s =
     (queuesRef s = queues s \<and> ticks_see_state as (tick now gen s))"

subsection \<open>Notions used in the statements\<close>

text \<open>An id generator for the examples: every call of \<^verbatim>\<open>generateId()\<close> returns
  \<^verbatim>\<open>"g"\<close>.\<close>

definition sample_ids :: "nat \<Rightarrow> string" where
  "sample_ids i = ''g''"

text \<open>The client that core \<open>i\<close> serves in a tick that starts with the core states \<open>cs\<close>:
  \<^verbatim>\<open>CLIENTS[state.clientIndex]\<close>, or nothing when the core has no state.\<close>

definition target :: "CoreState list \<Rightarrow> nat \<Rightarrow> ClientId option" where
  "target cs i = (if i < length cs then CLIENTS_at (clientIndex (cs ! i)) else None)"

text \<open>The core state, the processed record and the Gantt block that one iteration of the
  loop writes (lemmas \<open>iter_states\<close>, \<open>iter_items\<close> and \<open>iter_gantt\<close> below).\<close>

definition advance :: "CoreState \<Rightarrow> CoreState" where
  "advance st = \<lparr>clientIndex = (clientIndex st + 1) mod length CLIENTS\<rparr>"

definition log_of :: "int \<Rightarrow> nat \<Rightarrow> Message \<Rightarrow> ProcessedLog" where
  "log_of now cid msg =
     \<lparr>msg_id = msg_id msg, clientId = clientId msg, content = content msg,
      timestamp = timestamp msg, msg_type = msg_type msg, processedAt = now,
      latencyMs = now - timestamp msg, coreId = cid\<rparr>"

definition block_of :: "int \<Rightarrow> int \<Rightarrow> (nat \<Rightarrow> string) \<Rightarrow> nat \<Rightarrow> ClientId \<Rightarrow> GanttBlock" where
  "block_of now rate gen cid client =
     \<lparr>gantt_id = gen cid, gantt_clientId = client, startTime = now - rate,
      endTime = now, gantt_coreId = cid\<rparr>"

text \<open>The message a processed record was made from (its \<^verbatim>\<open>Message\<close> fields), and
  queues in which every message sits in the queue of its own \<^verbatim>\<open>clientId\<close>, as
  \<^verbatim>\<open>addMessage\<close> puts it.\<close>

definition message_of :: "ProcessedLog \<Rightarrow> Message" where
  "message_of r =
     \<lparr>msg_id = msg_id r, clientId = clientId r, content = content r,
      timestamp = timestamp r, msg_type = msg_type r\<rparr>"

definition well_keyed :: "Queues \<Rightarrow> bool" where
  "well_keyed q = list_all (\<lambda>c. list_all (\<lambda>m. clientId m = c) (q c)) CLIENTS"

text \<open>The records of a batch that belong to client \<open>c\<close>, as messages, in batch order.\<close>

definition served :: "ClientId \<Rightarrow> ProcessedLog list \<Rightarrow> Message list" where
  "served c rs = map message_of (filter (\<lambda>r. clientId r = c) rs)"

text \<open>A log is ordered newest first when \<open>processedAt\<close> never increases along it.\<close>

definition newest_first :: "ProcessedLog list \<Rightarrow> bool" where
  "newest_first rs = sorted_wrt (\<lambda>a b. processedAt b \<le> processedAt a) rs"

text \<open>Core \<open>i\<close> finds no message: it has no state, its index is outside \<^verbatim>\<open>CLIENTS\<close>, or
  the queue it targets is empty.\<close>

definition idle_core :: "Queues \<Rightarrow> CoreState list \<Rightarrow> nat \<Rightarrow> bool" where
  "idle_core q cs i = (case target cs i of None \<Rightarrow> True | Some c \<Rightarrow> q c = [])"

section \<open>Properties of the loop over the cores\<close>

lemma iter_states:
  "currentCoreStates (core_iteration now rate gen cid t) =
     (currentCoreStates t)[cid := advance (currentCoreStates t ! cid)]"
proof (cases "length (currentCoreStates t) \<le> cid")
  case True
  then show ?thesis by (simp add: core_iteration_def list_update_beyond)
next
  case False
  then show ?thesis
    by (simp add: core_iteration_def advance_def Let_def split: option.splits list.splits)
qed

lemma iter_queues:
  "currentQueues (core_iteration now rate gen cid t) =
     (case target (currentCoreStates t) cid of
        None \<Rightarrow> currentQueues t
      | Some c \<Rightarrow> (currentQueues t)(c := tl (currentQueues t c)))"
  by (auto simp add: core_iteration_def target_def Let_def split: option.splits list.splits)

lemma iter_items:
  "processedItems (core_iteration now rate gen cid t) =
     processedItems t @
     (case target (currentCoreStates t) cid of
        None \<Rightarrow> []
      | Some c \<Rightarrow> (case currentQueues t c of [] \<Rightarrow> [] | msg # remaining \<Rightarrow> [log_of now cid msg]))"
  by (simp add: core_iteration_def target_def log_of_def Let_def split: option.splits list.splits)

lemma iter_gantt:
  "ganttItems (core_iteration now rate gen cid t) =
     ganttItems t @
     (case target (currentCoreStates t) cid of
        None \<Rightarrow> []
      | Some c \<Rightarrow> (case currentQueues t c of [] \<Rightarrow> [] | msg # remaining \<Rightarrow> [block_of now rate gen cid c]))"
  by (simp add: core_iteration_def target_def block_of_def Let_def split: option.splits list.splits)

lemma core_loop_append:
  "core_loop now rate gen (xs @ ys) t = core_loop now rate gen ys (core_loop now rate gen xs t)"
  by (induction xs arbitrary: t) simp_all

lemma loop_length:
  "length (currentCoreStates (core_loop now rate gen ids t)) = length (currentCoreStates t)"
  by (induction ids arbitrary: t) (simp_all add: iter_states)

lemma loop_states_other:
  "j \<notin> set ids \<Longrightarrow> currentCoreStates (core_loop now rate gen ids t) ! j = currentCoreStates t ! j"
  by (induction ids arbitrary: t) (simp_all add: iter_states)

lemma loop_states_self:
  "distinct ids \<Longrightarrow> j \<in> set ids \<Longrightarrow> j < length (currentCoreStates t) \<Longrightarrow>
   currentCoreStates (core_loop now rate gen ids t) ! j = advance (currentCoreStates t ! j)"
proof (induction ids arbitrary: t)
  case Nil
  then show ?case by simp
next
  case (Cons a ids)
  show ?case
  proof (cases "j = a")
    case True
    with Cons.prems have "j \<notin> set ids" by simp
    then show ?thesis using True Cons.prems(3)
      by (simp add: loop_states_other iter_states)
  next
    case False
    with Cons.prems have "j \<in> set ids" "distinct ids" by simp_all
    then show ?thesis using False Cons.IH [of "core_iteration now rate gen a t"] Cons.prems(3)
      by (simp add: iter_states)
  qed
qed

lemma target_update_other:
  "j \<in> set ids \<Longrightarrow> a \<notin> set ids \<Longrightarrow> target (cs[a := x]) j = target cs j"
proof -
  assume "j \<in> set ids" "a \<notin> set ids"
  then have "a \<noteq> j" by auto
  then show ?thesis by (simp add: target_def)
qed

lemma loop_target_other:
  "j \<notin> set ids \<Longrightarrow> target (currentCoreStates (core_loop now rate gen ids t)) j = target (currentCoreStates t) j"
  by (simp add: target_def loop_length loop_states_other)

lemma loop_queue_empty:
  "currentQueues t c = [] \<Longrightarrow> currentQueues (core_loop now rate gen ids t) c = []"
proof (induction ids arbitrary: t)
  case Nil
  then show ?case by simp
next
  case (Cons a ids)
  have "currentQueues (core_iteration now rate gen a t) c = []"
    using Cons.prems by (simp add: iter_queues split: option.splits)
  then show ?case using Cons.IH by simp
qed

lemma loop_queue_untargeted:
  "distinct ids \<Longrightarrow> \<forall>h\<in>set ids. target (currentCoreStates t) h \<noteq> Some c \<Longrightarrow>
   currentQueues (core_loop now rate gen ids t) c = currentQueues t c"
proof (induction ids arbitrary: t)
  case Nil
  then show ?case by simp
next
  case (Cons a ids)
  let ?t = "core_iteration now rate gen a t"
  have q: "currentQueues ?t c = currentQueues t c"
    using Cons.prems(2) by (auto simp add: iter_queues split: option.splits)
  have "\<forall>h\<in>set ids. target (currentCoreStates ?t) h \<noteq> Some c"
    using Cons.prems by (auto simp add: iter_states target_update_other)
  with Cons.IH [of ?t] Cons.prems(1) q show ?case by simp
qed

lemma iter_idle:
  assumes "idle_core (currentQueues t) (currentCoreStates t) a"
  shows "currentQueues (core_iteration now rate gen a t) = currentQueues t"
    and "processedItems (core_iteration now rate gen a t) = processedItems t"
    and "ganttItems (core_iteration now rate gen a t) = ganttItems t"
  using assms by (auto simp add: idle_core_def iter_queues iter_items iter_gantt split: option.splits)

lemma idle_core_update_other:
  "j \<in> set ids \<Longrightarrow> a \<notin> set ids \<Longrightarrow> idle_core q (cs[a := x]) j = idle_core q cs j"
  by (simp add: idle_core_def target_update_other)

lemma loop_idle:
  "distinct ids \<Longrightarrow> \<forall>h\<in>set ids. idle_core (currentQueues t) (currentCoreStates t) h \<Longrightarrow>
   currentQueues (core_loop now rate gen ids t) = currentQueues t \<and>
   processedItems (core_loop now rate gen ids t) = processedItems t \<and>
   ganttItems (core_loop now rate gen ids t) = ganttItems t"
proof (induction ids arbitrary: t)
  case Nil
  then show ?case by simp
next
  case (Cons a ids)
  let ?t = "core_iteration now rate gen a t"
  have a: "idle_core (currentQueues t) (currentCoreStates t) a"
    using Cons.prems(2) by simp
  have "\<forall>h\<in>set ids. idle_core (currentQueues ?t) (currentCoreStates ?t) h"
    using Cons.prems by (auto simp add: iter_idle(1) [OF a] iter_states idle_core_update_other)
  with Cons.IH [of ?t] Cons.prems(1) show ?case
    by (simp add: iter_idle [OF a])
qed

section \<open>Metrics and the committed tick\<close>

lemma floor_quotient_div: "floor_quotient x y = x div y"
  by (simp add: floor_quotient_def floor_divide_of_int_eq)

lemma foldl_latency:
  "foldl (\<lambda>sum item. sum + latencyMs item) a items = a + sum_list (map latencyMs items)"
  by (induction items arbitrary: a) simp_all

lemma update_metrics_total:
  "totalProcessed (update_metrics items m) = totalProcessed m + int (length items)"
  by (simp add: update_metrics_def Let_def)

lemma update_metrics_avg:
  "avgLatency (update_metrics items m) =
     (avgLatency m * totalProcessed m + sum_list (map latencyMs items))
       div (totalProcessed m + int (length items))"
  by (simp add: update_metrics_def Let_def floor_quotient_div foldl_latency)

section \<open>Conservation of messages\<close>

lemma total_queued_update:
  "total_queued (q(c := xs)) = total_queued q - int (length (q c)) + int (length xs)"
  by (cases c) (simp_all add: total_queued_def CLIENTS_def)

lemma iter_conserves:
  "total_queued (currentQueues (core_iteration now rate gen a t))
     + int (length (processedItems (core_iteration now rate gen a t)))
   = total_queued (currentQueues t) + int (length (processedItems t))"
  by (simp add: iter_queues iter_items total_queued_update split: option.splits list.splits)

lemma loop_conserves:
  "total_queued (currentQueues (core_loop now rate gen ids t))
     + int (length (processedItems (core_loop now rate gen ids t)))
   = total_queued (currentQueues t) + int (length (processedItems t))"
  by (induction ids arbitrary: t) (simp_all add: iter_conserves)

lemma run_cores_conserves:
  "total_queued (currentQueues (run_cores now gen s))
     + int (length (processedItems (run_cores now gen s)))
   = total_queued (queuesRef s)"
  using loop_conserves [of now "tickRate s" gen "[0..<cpuCount s]"
      "\<lparr>currentQueues = queuesRef s, currentCoreStates = coreStatesRef s,
        processedItems = [], ganttItems = []\<rparr>"]
  by (simp add: run_cores_def)

lemma tick_queues: "queues (tick now gen s) = currentQueues (run_cores now gen s)"
  by (simp add: tick_def Let_def)

lemma tick_coreStates: "coreStates (tick now gen s) = currentCoreStates (run_cores now gen s)"
  by (simp add: tick_def Let_def)

lemma tick_metrics:
  "metrics (tick now gen s) =
     (if processedItems (run_cores now gen s) = [] then metrics s
      else update_metrics (processedItems (run_cores now gen s)) (metrics s))"
  by (simp add: tick_def Let_def)

lemma tick_logs:
  "logs (tick now gen s) =
     (if processedItems (run_cores now gen s) = [] then logs s
      else take 50 (processedItems (run_cores now gen s) @ logs s))"
  by (simp add: tick_def Let_def)

subsection \<open>Evaluation of concrete states\<close>

lemma upt_0_1: "[0..<1] = [0]"
  by (simp add: upt_rec)

lemma upt_0_2: "[0..<2] = [0, Suc 0]"
  by (simp add: upt_rec)

lemmas state_defs =
  initial_state_def initializeSystem_def resetSystem_def sync_refs_def addMessage_def
  toggleProcessing_def toggleAutoInject_def empty_queues_def zero_metrics_def
  CLIENTS_def CLIENTS_at_def

lemmas tick_defs =
  tick_def run_cores_def core_iteration_def update_metrics_def floor_quotient_div
  slice_last_def sample_ids_def upt_0_1 upt_0_2

lemma tick_synced: "synced (tick now gen s)"
  by (simp add: tick_def synced_def Let_def)

lemma tick_conserves:
  "total_queued (queues (tick now gen s)) + totalProcessed (metrics (tick now gen s))
   = total_queued (queuesRef s) + totalProcessed (metrics s)"
  using run_cores_conserves [of now gen s]
  by (auto simp add: tick_queues tick_metrics update_metrics_total)

lemma inject_queued:
  "total_queued (queues (addMessage newId ty price now cid s)) = total_queued (queues s) + 1"
  by (simp add: addMessage_def Let_def total_queued_update)

lemma injected_Cons: "injected (a # as) = injected [a] + injected as"
  by (simp add: injected_def)

text \<open>The part of the conservation law that the code keeps: in a run in which every
  tick starts with \<^verbatim>\<open>queuesRef\<close> equal to \<^verbatim>\<open>queues\<close>, the queue lengths plus
  \<open>totalProcessed\<close> grow by exactly the number of injections.\<close>

lemma conservation_when_ticks_see_state:
  "ticks_see_state as s \<Longrightarrow>
   total_queued (queues (run as s)) + totalProcessed (metrics (run as s))
   = total_queued (queues s) + totalProcessed (metrics s) + injected as"
proof (induction as arbitrary: s)
  case Nil
  then show ?case by (simp add: injected_def)
next
  case (Cons a as)
  show ?case
  proof (cases a)
    case (Inject newId ty price now cid)
    with Cons.prems have t: "ticks_see_state as (addMessage newId ty price now cid s)"
      by simp
    have m: "metrics (addMessage newId ty price now cid s) = metrics s"
      by (simp add: addMessage_def Let_def)
    from Cons.IH [OF t] inject_queued [of newId ty price now cid s] Inject m
    show ?thesis
      by (simp add: injected_def)
  next
    case Effects
    with Cons.prems have "ticks_see_state as (sync_refs s)"
      by simp
    from Cons.IH [OF this] Effects show ?thesis
      by (simp add: injected_def sync_refs_def)
  next
    case (Tick now gen)
    with Cons.prems have q: "queuesRef s = queues s" and "ticks_see_state as (tick now gen s)"
      by simp_all
    from Cons.IH [OF this(2)] tick_conserves [of now gen s] q Tick show ?thesis
      by (simp add: injected_def)
  qed
qed

text \<open>
  Claim C1 (conservation of messages) does not hold of the code. \<^verbatim>\<open>addMessage\<close>
  changes the state \<^verbatim>\<open>queues\<close> only, and \<^verbatim>\<open>queuesRef\<close> follows when the effects run. A
  tick that runs before them takes its snapshot from the ref, which does not have the
  new message, and writes the snapshot back to \<^verbatim>\<open>queues\<close>: after one injection and one
  tick on a freshly configured single core, no message is queued and none was
  processed, so the sum is 0 where one message was injected. With the effects between
  the injection and the tick the message is processed and the sum is 1.
\<close>

theorem injection_lost_by_tick_on_stale_ref:
  "injected [Inject ''a'' BUY ''100.00'' 1 APEX, Tick 5 sample_ids] = 1
   \<and> total_queued (queues (run [Inject ''a'' BUY ''100.00'' 1 APEX]
        (initializeSystem 1 initial_state))) = 1
   \<and> total_queued (queues (run [Inject ''a'' BUY ''100.00'' 1 APEX, Tick 5 sample_ids]
        (initializeSystem 1 initial_state)))
     + totalProcessed (metrics (run [Inject ''a'' BUY ''100.00'' 1 APEX, Tick 5 sample_ids]
        (initializeSystem 1 initial_state))) = 0
   \<and> total_queued (queues (run [Inject ''a'' BUY ''100.00'' 1 APEX, Effects, Tick 5 sample_ids]
        (initializeSystem 1 initial_state)))
     + totalProcessed (metrics (run [Inject ''a'' BUY ''100.00'' 1 APEX, Effects, Tick 5 sample_ids]
        (initializeSystem 1 initial_state))) = 1"
  by (simp add: injected_def total_queued_def state_defs tick_defs Let_def)

section \<open>The rotation index\<close>

lemma run_cores_states_self:
  assumes "i < cpuCount s" "i < length (coreStatesRef s)"
  shows "currentCoreStates (run_cores now gen s) ! i = advance (coreStatesRef s ! i)"
  using assms by (simp add: run_cores_def loop_states_self)

lemma run_cores_length:
  "length (currentCoreStates (run_cores now gen s)) = length (coreStatesRef s)"
  by (simp add: run_cores_def loop_length)

text \<open>
  Claim C3 (unconditional rotation advance). In a state whose refs agree with the
  React state, a tick replaces the rotation index of every core \<open>i\<close> below \<open>cpuCount\<close>
  by \<open>(old index + 1) mod clientCount\<close>, whatever the queues hold, and keeps the
  number of cores; the client count is 4.
\<close>

theorem rotation_advances_every_tick:
  assumes "coreStatesRef s = coreStates s" and "i < cpuCount s" and "i < length (coreStates s)"
  shows "coreStates (tick now gen s) ! i =
           \<lparr>clientIndex = (clientIndex (coreStates s ! i) + 1) mod length CLIENTS\<rparr>
         \<and> length (coreStates (tick now gen s)) = length (coreStates s)
         \<and> length CLIENTS = 4"
  using assms run_cores_states_self [of i s now gen] run_cores_length [of now gen s]
  by (simp add: tick_coreStates advance_def CLIENTS_def)

theorem rotation_advances_every_tick_witness:
  "coreStatesRef (initializeSystem 2 initial_state) = coreStates (initializeSystem 2 initial_state)
   \<and> 1 < cpuCount (initializeSystem 2 initial_state)
   \<and> 1 < length (coreStates (initializeSystem 2 initial_state))
   \<and> queues (initializeSystem 2 initial_state) NOVA = []
   \<and> coreStates (initializeSystem 2 initial_state) ! 1 = \<lparr>clientIndex = 1\<rparr>
   \<and> coreStates (tick 7 sample_ids (initializeSystem 2 initial_state)) ! 1 = \<lparr>clientIndex = 2\<rparr>"
  using rotation_advances_every_tick [of "initializeSystem 2 initial_state" 1 7 sample_ids]
  by (simp add: state_defs upt_0_2 Let_def)

section \<open>The idle tick\<close>

lemma run_cores_idle:
  assumes "\<forall>i<cpuCount s. idle_core (queuesRef s) (coreStatesRef s) i"
  shows "currentQueues (run_cores now gen s) = queuesRef s"
    and "processedItems (run_cores now gen s) = []"
    and "ganttItems (run_cores now gen s) = []"
  using assms
    loop_idle [of "[0..<cpuCount s]"
      "\<lparr>currentQueues = queuesRef s, currentCoreStates = coreStatesRef s,
        processedItems = [], ganttItems = []\<rparr>" now "tickRate s" gen]
  by (simp_all add: run_cores_def)

text \<open>The frame condition of an idle tick where the refs agree with the React state:
  if no core below \<open>cpuCount\<close> has a message in the queue it targets, the state after
  the tick is the state before it with new core states only.\<close>

lemma idle_tick_frame_when_synced:
  assumes "synced s" and "\<forall>i<cpuCount s. idle_core (queues s) (coreStates s) i"
  shows "queues (tick now gen s) = queues s
         \<and> logs (tick now gen s) = logs s
         \<and> ganttHistory (tick now gen s) = ganttHistory s
         \<and> metrics (tick now gen s) = metrics s
         \<and> tick now gen s =
             s\<lparr>coreStates := coreStates (tick now gen s),
               coreStatesRef := coreStates (tick now gen s)\<rparr>"
proof -
  from assms have idle: "\<forall>i<cpuCount s. idle_core (queuesRef s) (coreStatesRef s) i"
    and q: "queuesRef s = queues s"
    by (simp_all add: synced_def)
  note r = run_cores_idle [OF idle, of now gen]
  show ?thesis using q by (simp add: tick_def Let_def r)
qed

text \<open>
  Claim C10 (idle-tick frame condition) does not hold of the code. The callback calls
  \<^verbatim>\<open>setQueues(currentQueues)\<close> on every tick, outside the guard on the batch, with the
  snapshot it took from \<^verbatim>\<open>queuesRef\<close>. On a single core that targets APEX, after an
  injection for NOVA whose effects have not run yet, the core is idle (the queue of
  APEX is empty in the state and in the ref) and the batch of the tick is empty, but
  the tick replaces the queues by the ref's copy: the queue of NOVA goes from one
  message to none.
\<close>

theorem idle_tick_drops_pending_injection:
  "cpuCount (perform (Inject ''a'' BUY ''100.00'' 1 NOVA) (initializeSystem 1 initial_state)) = 1
   \<and> idle_core
        (queues (perform (Inject ''a'' BUY ''100.00'' 1 NOVA) (initializeSystem 1 initial_state)))
        (coreStates (perform (Inject ''a'' BUY ''100.00'' 1 NOVA) (initializeSystem 1 initial_state)))
        0
   \<and> idle_core
        (queuesRef (perform (Inject ''a'' BUY ''100.00'' 1 NOVA) (initializeSystem 1 initial_state)))
        (coreStatesRef (perform (Inject ''a'' BUY ''100.00'' 1 NOVA) (initializeSystem 1 initial_state)))
        0
   \<and> processedItems (run_cores 5 sample_ids
        (perform (Inject ''a'' BUY ''100.00'' 1 NOVA) (initializeSystem 1 initial_state))) = []
   \<and> length (queues
        (perform (Inject ''a'' BUY ''100.00'' 1 NOVA) (initializeSystem 1 initial_state)) NOVA) = 1
   \<and> queues (tick 5 sample_ids
        (perform (Inject ''a'' BUY ''100.00'' 1 NOVA) (initializeSystem 1 initial_state))) NOVA = []
   \<and> queues (tick 5 sample_ids
        (perform (Inject ''a'' BUY ''100.00'' 1 NOVA) (initializeSystem 1 initial_state)))
       \<noteq> queues (perform (Inject ''a'' BUY ''100.00'' 1 NOVA) (initializeSystem 1 initial_state))"
proof -
  let ?s = "perform (Inject ''a'' BUY ''100.00'' 1 NOVA) (initializeSystem 1 initial_state)"
  have before: "length (queues ?s NOVA) = 1"
    by (simp add: state_defs Let_def)
  have after: "queues (tick 5 sample_ids ?s) NOVA = []"
    by (simp add: state_defs tick_defs Let_def)
  from before after have "queues (tick 5 sample_ids ?s) NOVA \<noteq> queues ?s NOVA"
    by auto
  then have ne: "queues (tick 5 sample_ids ?s) \<noteq> queues ?s"
    by metis
  have rest: "cpuCount ?s = 1"
    "idle_core (queues ?s) (coreStates ?s) 0"
    "idle_core (queuesRef ?s) (coreStatesRef ?s) 0"
    "processedItems (run_cores 5 sample_ids ?s) = []"
    by (simp_all add: idle_core_def target_def state_defs tick_defs Let_def)
  from rest before after ne show ?thesis by simp
qed

section \<open>Metrics exactness\<close>

lemma sdiv_nonneg: "0 \<le> k \<Longrightarrow> 0 < l \<Longrightarrow> k sdiv l = k div (l::int)"
  by (cases "k = 0") (simp_all add: signed_divide_int_def)

lemma tick_total_nonneg:
  "0 \<le> totalProcessed (metrics s) \<Longrightarrow> 0 \<le> totalProcessed (metrics (tick now gen s))"
  by (simp add: tick_metrics update_metrics_total)

lemma perform_total_nonneg:
  "0 \<le> totalProcessed (metrics s) \<Longrightarrow> 0 \<le> totalProcessed (metrics (perform a s))"
  by (cases a) (simp_all add: tick_total_nonneg sync_refs_def addMessage_def Let_def)

lemma run_total_nonneg:
  "0 \<le> totalProcessed (metrics s) \<Longrightarrow> 0 \<le> totalProcessed (metrics (run as s))"
  by (induction as arbitrary: s) (simp_all add: perform_total_nonneg)

text \<open>
  Claim C4 (metrics exactness). A tick with an empty batch leaves the metrics as they
  were. A tick with a non-empty batch, in a state whose \<open>totalProcessed\<close> is not
  negative, adds the batch's length to \<open>totalProcessed\<close>, which makes the new total
  positive, and sets \<open>avgLatency\<close> to the floor of
  \<open>(avgLatency * totalProcessed + sum of the batch's latencies) / newTotal\<close>; this is
  the integer quotient \<open>div\<close>, and when the numerator is not negative it is also the
  quotient truncated towards zero (\<open>sdiv\<close>). \<open>totalProcessed\<close> is never negative in a
  run from a freshly configured system.
\<close>

theorem metrics_exactness:
  "(processedItems (run_cores now gen s) = [] \<longrightarrow> metrics (tick now gen s) = metrics s)
   \<and> (processedItems (run_cores now gen s) \<noteq> [] \<longrightarrow> 0 \<le> totalProcessed (metrics s) \<longrightarrow>
        0 < totalProcessed (metrics s) + int (length (processedItems (run_cores now gen s)))
        \<and> metrics (tick now gen s) =
            (metrics s)
              \<lparr>totalProcessed :=
                 totalProcessed (metrics s) + int (length (processedItems (run_cores now gen s))),
               avgLatency :=
                 (avgLatency (metrics s) * totalProcessed (metrics s)
                    + sum_list (map latencyMs (processedItems (run_cores now gen s))))
                 div (totalProcessed (metrics s)
                      + int (length (processedItems (run_cores now gen s))))\<rparr>
        \<and> avgLatency (metrics (tick now gen s)) =
            \<lfloor>real_of_int (avgLatency (metrics s) * totalProcessed (metrics s)
                    + sum_list (map latencyMs (processedItems (run_cores now gen s))))
             / real_of_int (totalProcessed (metrics s)
                    + int (length (processedItems (run_cores now gen s))))\<rfloor>
        \<and> (0 \<le> avgLatency (metrics s) * totalProcessed (metrics s)
                + sum_list (map latencyMs (processedItems (run_cores now gen s))) \<longrightarrow>
            avgLatency (metrics (tick now gen s)) =
              (avgLatency (metrics s) * totalProcessed (metrics s)
                 + sum_list (map latencyMs (processedItems (run_cores now gen s))))
              sdiv (totalProcessed (metrics s)
                    + int (length (processedItems (run_cores now gen s))))))
   \<and> 0 \<le> totalProcessed (metrics (run as (initializeSystem n initial_state)))"
proof -
  let ?items = "processedItems (run_cores now gen s)"
  let ?num = "avgLatency (metrics s) * totalProcessed (metrics s) + sum_list (map latencyMs ?items)"
  let ?tot = "totalProcessed (metrics s) + int (length ?items)"
  have upd: "update_metrics ?items (metrics s) =
      (metrics s)\<lparr>totalProcessed := ?tot, avgLatency := ?num div ?tot\<rparr>"
    by (simp add: update_metrics_def Let_def floor_quotient_div foldl_latency)
  have empty: "metrics (tick now gen s) = metrics s" if "?items = []"
    using that by (simp add: tick_metrics)
  have full: "metrics (tick now gen s) =
      (metrics s)\<lparr>totalProcessed := ?tot, avgLatency := ?num div ?tot\<rparr>" if "?items \<noteq> []"
    using that by (simp only: tick_metrics upd if_False)
  have pos: "0 < ?tot" if "?items \<noteq> []" and "0 \<le> totalProcessed (metrics s)"
  proof -
    from that(1) have "0 < length ?items" by simp
    with that(2) show ?thesis by linarith
  qed
  have fl: "avgLatency (metrics (tick now gen s)) = \<lfloor>real_of_int ?num / real_of_int ?tot\<rfloor>"
    if "?items \<noteq> []"
  proof -
    from that have "avgLatency (metrics (tick now gen s)) = ?num div ?tot"
      by (simp add: full)
    then show ?thesis by (simp only: floor_divide_of_int_eq)
  qed
  have tr: "avgLatency (metrics (tick now gen s)) = ?num sdiv ?tot"
    if "?items \<noteq> []" and "0 \<le> totalProcessed (metrics s)" and "0 \<le> ?num"
    using that(1) by (simp add: full sdiv_nonneg [OF that(3) pos [OF that(1,2)]])
  have "0 \<le> totalProcessed (metrics (initializeSystem n initial_state))"
    by (simp add: initializeSystem_def initial_state_def zero_metrics_def Let_def)
  then have inv: "0 \<le> totalProcessed (metrics (run as (initializeSystem n initial_state)))"
    by (rule run_total_nonneg)
  from empty full pos fl tr inv show ?thesis by blast
qed

theorem metrics_exactness_witness:
  "processedItems (run_cores 25 sample_ids
      (run [Inject ''a'' BUY ''100.00'' 22 APEX, Inject ''b'' SELL ''200.00'' 21 NOVA, Effects]
        (initializeSystem 2 initial_state))) \<noteq> []
   \<and> 0 \<le> totalProcessed (metrics
      (run [Inject ''a'' BUY ''100.00'' 22 APEX, Inject ''b'' SELL ''200.00'' 21 NOVA, Effects]
        (initializeSystem 2 initial_state)))
   \<and> map latencyMs (processedItems (run_cores 25 sample_ids
      (run [Inject ''a'' BUY ''100.00'' 22 APEX, Inject ''b'' SELL ''200.00'' 21 NOVA, Effects]
        (initializeSystem 2 initial_state)))) = [3, 4]
   \<and> metrics (tick 25 sample_ids
      (run [Inject ''a'' BUY ''100.00'' 22 APEX, Inject ''b'' SELL ''200.00'' 21 NOVA, Effects]
        (initializeSystem 2 initial_state)))
     = \<lparr>totalProcessed = 2, avgLatency = 3, activeNodes = 4\<rparr>
   \<and> (7::int) sdiv 2 = 3"
  using metrics_exactness [of 25 sample_ids
      "run [Inject ''a'' BUY ''100.00'' 22 APEX, Inject ''b'' SELL ''200.00'' 21 NOVA, Effects]
        (initializeSystem 2 initial_state)" "[]" 2]
  by (simp add: state_defs tick_defs Let_def signed_divide_int_def)

section \<open>Reset\<close>

text \<open>
  Claim C6 (reset completeness), as the code has it. After \<open>resetSystem\<close> and the
  effects that follow it, in any state, the four queues (state and ref) are empty,
  both history logs are empty, the metrics are zeroed, the system is back in
  configuration mode and both timers are switched off. The core count and the
  per-core rotation indices are left as they were; the next \<open>initializeSystem n\<close>
  sets them to \<open>n\<close> and \<open>i mod clientCount\<close>, which gives the freshly configured state
  up to the tick rate.
\<close>

theorem reset_clears_all_but_core_states:
  "queues (sync_refs (resetSystem s)) = empty_queues
   \<and> queuesRef (sync_refs (resetSystem s)) = empty_queues
   \<and> logs (sync_refs (resetSystem s)) = []
   \<and> ganttHistory (sync_refs (resetSystem s)) = []
   \<and> metrics (sync_refs (resetSystem s)) = zero_metrics
   \<and> configMode (sync_refs (resetSystem s))
   \<and> \<not> isProcessing (sync_refs (resetSystem s))
   \<and> \<not> autoInject (sync_refs (resetSystem s))
   \<and> coreStates (sync_refs (resetSystem s)) = coreStates s
   \<and> cpuCount (sync_refs (resetSystem s)) = cpuCount s
   \<and> initializeSystem n (sync_refs (resetSystem s)) =
       initializeSystem n (initial_state\<lparr>tickRate := tickRate s\<rparr>)
   \<and> coreStates (initializeSystem n (sync_refs (resetSystem s))) =
       map (\<lambda>i. \<lparr>clientIndex = i mod length CLIENTS\<rparr>) [0..<n]"
  by (simp add: sync_refs_def resetSystem_def initializeSystem_def initial_state_def Let_def)

text \<open>The claim as stated fails: after one tick of a single core, a reset leaves the
  rotation index at 1, while the initial state (and a fresh \<open>initializeSystem 1\<close>) has
  index 0; and a reset of a two-core system keeps two core states and \<open>cpuCount = 2\<close>,
  where the initial state has one core.\<close>

theorem reset_keeps_core_states_counterexample:
  "coreStates (sync_refs (resetSystem (tick 7 sample_ids
      (toggleProcessing (initializeSystem 1 initial_state))))) = [\<lparr>clientIndex = 1\<rparr>]
   \<and> coreStates initial_state = [\<lparr>clientIndex = 0\<rparr>]
   \<and> coreStates (initializeSystem 1 initial_state) = [\<lparr>clientIndex = 0\<rparr>]
   \<and> coreStates (sync_refs (resetSystem (initializeSystem 2 initial_state)))
       = [\<lparr>clientIndex = 0\<rparr>, \<lparr>clientIndex = 1\<rparr>]
   \<and> cpuCount (sync_refs (resetSystem (initializeSystem 2 initial_state))) = 2
   \<and> cpuCount initial_state = 1
   \<and> sync_refs (resetSystem (initializeSystem 2 initial_state)) \<noteq> initial_state"
proof -
  have "cpuCount (sync_refs (resetSystem (initializeSystem 2 initial_state))) \<noteq> cpuCount initial_state"
    by (simp add: state_defs Let_def)
  then have "sync_refs (resetSystem (initializeSystem 2 initial_state)) \<noteq> initial_state"
    by metis
  then show ?thesis
    by (simp add: state_defs tick_defs Let_def)
qed

section \<open>Timer events before configuration\<close>

text \<open>
  Claim C8 (calls before configuration), as the code has it. While \<open>configMode\<close> holds,
  neither interval is installed: a tick event and an injection event leave the state
  exactly as it was, and neither is rejected.
\<close>

theorem timers_ignored_before_configure:
  assumes "configMode s"
  shows "tick_timer now gen s = Some s
         \<and> inject_timer newId ty price t randomClient s = Some s"
  using assms by (simp add: tick_timer_def inject_timer_def)

theorem timers_ignored_before_configure_witness:
  "configMode (toggleAutoInject (toggleProcessing initial_state))
   \<and> isProcessing (toggleAutoInject (toggleProcessing initial_state))
   \<and> autoInject (toggleAutoInject (toggleProcessing initial_state))
   \<and> tick_timer 7 sample_ids (toggleAutoInject (toggleProcessing initial_state))
       = Some (toggleAutoInject (toggleProcessing initial_state))
   \<and> inject_timer ''a'' BUY ''100.00'' 7 APEX (toggleAutoInject (toggleProcessing initial_state))
       = Some (toggleAutoInject (toggleProcessing initial_state))"
  using timers_ignored_before_configure
    [of "toggleAutoInject (toggleProcessing initial_state)" 7 sample_ids "''a''" BUY "''100.00''" 7 APEX]
  by (simp add: state_defs)

text \<open>The claim as stated fails: in the initial, unconfigured state a tick event and an
  injection event are not rejected (the result is not \<open>None\<close>); they return the
  state unchanged.\<close>

theorem no_rejection_before_configure_counterexample:
  "configMode initial_state
   \<and> tick_timer 7 sample_ids initial_state \<noteq> None
   \<and> inject_timer ''a'' BUY ''100.00'' 7 APEX initial_state \<noteq> None
   \<and> tick_timer 7 sample_ids initial_state = Some initial_state
   \<and> inject_timer ''a'' BUY ''100.00'' 7 APEX initial_state = Some initial_state"
  by (simp add: tick_timer_def inject_timer_def initial_state_def)

section \<open>The two-core example\<close>


section \<open>The processed-record log\<close>

lemma take_append_take: "take n (xs @ take n ys) = take n (xs @ ys)"
  by (simp add: min_def)

lemma perform_logs:
  "length (logs s) \<le> 50 \<Longrightarrow> logs (perform a s) = take 50 (batch_of a s @ logs s)"
  by (cases a) (simp_all add: tick_logs sync_refs_def addMessage_def Let_def)

lemma perform_logs_length: "length (logs s) \<le> 50 \<Longrightarrow> length (logs (perform a s)) \<le> 50"
  by (simp add: perform_logs)

lemma run_logs_length: "length (logs s) \<le> 50 \<Longrightarrow> length (logs (run as s)) \<le> 50"
  by (induction as arbitrary: s) (simp_all add: perform_logs_length)

lemma run_logs:
  "length (logs s) \<le> 50 \<Longrightarrow> logs (run as s) = take 50 (produced as s @ logs s)"
proof (induction as arbitrary: s)
  case Nil
  then show ?case by simp
next
  case (Cons a as)
  have "logs (run (a # as) s) = take 50 (produced as (perform a s) @ logs (perform a s))"
    using Cons.IH [of "perform a s"] Cons.prems by (simp add: perform_logs_length)
  also have "\<dots> = take 50 (produced as (perform a s) @ take 50 (batch_of a s @ logs s))"
    using Cons.prems by (simp only: perform_logs)
  also have "\<dots> = take 50 (produced as (perform a s) @ batch_of a s @ logs s)"
    by (rule take_append_take)
  finally show ?case by simp
qed

lemma iter_processedAt:
  "\<forall>r\<in>set (processedItems t). processedAt r = now \<Longrightarrow>
   \<forall>r\<in>set (processedItems (core_iteration now rate gen a t)). processedAt r = now"
  by (auto simp add: iter_items log_of_def split: option.splits list.splits)

lemma loop_processedAt:
  "\<forall>r\<in>set (processedItems t). processedAt r = now \<Longrightarrow>
   \<forall>r\<in>set (processedItems (core_loop now rate gen ids t)). processedAt r = now"
proof (induction ids arbitrary: t)
  case Nil
  then show ?case by simp
next
  case (Cons a ids)
  from iter_processedAt [OF Cons.prems]
  have "\<forall>r\<in>set (processedItems (core_iteration now rate gen a t)). processedAt r = now" .
  from Cons.IH [OF this] show ?case by simp
qed

lemma run_cores_processedAt:
  "r \<in> set (processedItems (run_cores now gen s)) \<Longrightarrow> processedAt r = now"
  using loop_processedAt [of "\<lparr>currentQueues = queuesRef s, currentCoreStates = coreStatesRef s,
        processedItems = [], ganttItems = []\<rparr>" now "tickRate s" gen "[0..<cpuCount s]"]
  by (simp add: run_cores_def)

lemma newest_first_take: "newest_first rs \<Longrightarrow> newest_first (take n rs)"
  by (simp add: newest_first_def sorted_wrt_take)

lemma newest_first_constant:
  "\<forall>r\<in>set rs. processedAt r = now \<Longrightarrow> newest_first rs"
  by (induction rs) (simp_all add: newest_first_def)

lemma tick_newest_first:
  assumes "newest_first (logs s)" and "\<forall>r\<in>set (logs s). processedAt r \<le> now"
  shows "newest_first (logs (tick now gen s))"
proof (cases "processedItems (run_cores now gen s) = []")
  case True
  with assms show ?thesis by (simp add: tick_logs)
next
  case False
  have "newest_first (processedItems (run_cores now gen s) @ logs s)"
    using assms run_cores_processedAt [of _ now gen s]
      newest_first_constant [of "processedItems (run_cores now gen s)" now]
    by (auto simp add: newest_first_def sorted_wrt_append)
  then have "newest_first (take 50 (processedItems (run_cores now gen s) @ logs s))"
    by (rule newest_first_take)
  moreover have "logs (tick now gen s) = take 50 (processedItems (run_cores now gen s) @ logs s)"
    using False by (simp only: tick_logs if_False)
  ultimately show ?thesis by (simp only:)
qed

lemma tick_logs_bound:
  assumes "\<forall>r\<in>set (logs s). processedAt r \<le> now" and "now \<le> u"
  shows "\<forall>r\<in>set (logs (tick now gen s)). processedAt r \<le> u"
proof
  fix r assume "r \<in> set (logs (tick now gen s))"
  then have "r \<in> set (processedItems (run_cores now gen s)) \<or> r \<in> set (logs s)"
    by (auto simp add: tick_logs split: if_splits dest: in_set_takeD)
  then show "processedAt r \<le> u"
    using assms run_cores_processedAt [of r now gen s] by auto
qed

lemma run_newest_first:
  "sorted (tick_times as) \<Longrightarrow> newest_first (logs s) \<Longrightarrow>
   \<forall>r\<in>set (logs s). \<forall>u\<in>set (tick_times as). processedAt r \<le> u \<Longrightarrow>
   newest_first (logs (run as s))"
proof (induction as arbitrary: s)
  case Nil
  then show ?case by simp
next
  case (Cons a as)
  show ?case
  proof (cases a)
    case (Inject newId ty price now cid)
    have "logs (perform a s) = logs s"
      using Inject by (simp add: addMessage_def Let_def)
    with Cons.IH [of "perform a s"] Cons.prems Inject show ?thesis by simp
  next
    case Effects
    have "logs (perform a s) = logs s"
      using Effects by (simp add: sync_refs_def)
    with Cons.IH [of "perform a s"] Cons.prems Effects show ?thesis by simp
  next
    case (Tick now gen)
    from Cons.prems(1) Tick have srt: "sorted (tick_times as)"
      and le: "\<forall>u\<in>set (tick_times as). now \<le> u" by simp_all
    from Cons.prems(3) Tick have old: "\<forall>r\<in>set (logs s). processedAt r \<le> now" by simp
    have nf: "newest_first (logs (tick now gen s))"
      using Cons.prems(2) old by (rule tick_newest_first)
    have "\<forall>r\<in>set (logs (tick now gen s)). \<forall>u\<in>set (tick_times as). processedAt r \<le> u"
      using tick_logs_bound [OF old, of _ gen] le by blast
    with Cons.IH [of "tick now gen s"] srt nf Tick show ?thesis by simp
  qed
qed


text \<open>
  Claim C5 (history bound and ordering of the processed-record log). After every run of
  injections and ticks from a freshly configured system the log is the list of all
  records produced so far, newest batch first, cut to its first 50 entries; so it never
  has more than 50 entries, it has exactly 50 once 50 or more records were produced,
  and a further tick puts its batch in front of the log and cuts the result to 50.
  When the clock readings of the ticks do not decrease along the run, the log is
  ordered by \<open>processedAt\<close>, newest first.
\<close>

theorem processed_log_bounded_newest_first:
  "logs (run as (initializeSystem n initial_state))
     = take 50 (produced as (initializeSystem n initial_state))
   \<and> length (logs (run as (initializeSystem n initial_state))) \<le> 50
   \<and> (50 \<le> length (produced as (initializeSystem n initial_state)) \<longrightarrow>
        length (logs (run as (initializeSystem n initial_state))) = 50)
   \<and> logs (tick now gen (run as (initializeSystem n initial_state)))
       = take 50 (processedItems (run_cores now gen (run as (initializeSystem n initial_state)))
                  @ logs (run as (initializeSystem n initial_state)))
   \<and> (sorted (tick_times as) \<longrightarrow> newest_first (logs (run as (initializeSystem n initial_state))))"
proof -
  let ?s = "initializeSystem n initial_state"
  have empty: "logs ?s = []"
    by (simp add: initializeSystem_def initial_state_def Let_def)
  then have le: "length (logs ?s) \<le> 50" by simp
  have a: "logs (run as ?s) = take 50 (produced as ?s)"
    using run_logs [OF le, of as] empty by simp
  have b: "length (logs (run as ?s)) \<le> 50"
    using le by (rule run_logs_length)
  have c: "length (logs (run as ?s)) = 50" if "50 \<le> length (produced as ?s)"
    using that by (simp add: a)
  have d: "logs (tick now gen (run as ?s))
       = take 50 (processedItems (run_cores now gen (run as ?s)) @ logs (run as ?s))"
    using perform_logs [OF b, of "Tick now gen"] by simp
  have e: "newest_first (logs (run as ?s))" if "sorted (tick_times as)"
    using that run_newest_first [of as ?s] empty by (simp add: newest_first_def)
  from a b c d e show ?thesis by blast
qed

theorem processed_log_bounded_newest_first_witness:
  "sorted (tick_times [Inject ''a'' BUY ''100.00'' 1 APEX, Effects, Tick 5 sample_ids,
                       Inject ''b'' SELL ''200.00'' 6 NOVA, Effects, Tick 9 sample_ids])
   \<and> map msg_id (logs (run [Inject ''a'' BUY ''100.00'' 1 APEX, Effects, Tick 5 sample_ids,
                       Inject ''b'' SELL ''200.00'' 6 NOVA, Effects, Tick 9 sample_ids]
                      (initializeSystem 1 initial_state))) = [''b'', ''a'']
   \<and> map processedAt (logs (run [Inject ''a'' BUY ''100.00'' 1 APEX, Effects, Tick 5 sample_ids,
                       Inject ''b'' SELL ''200.00'' 6 NOVA, Effects, Tick 9 sample_ids]
                      (initializeSystem 1 initial_state))) = [9, 5]
   \<and> newest_first (logs (run [Inject ''a'' BUY ''100.00'' 1 APEX, Effects, Tick 5 sample_ids,
                       Inject ''b'' SELL ''200.00'' 6 NOVA, Effects, Tick 9 sample_ids]
                      (initializeSystem 1 initial_state)))"
  using processed_log_bounded_newest_first
    [of "[Inject ''a'' BUY ''100.00'' 1 APEX, Effects, Tick 5 sample_ids,
          Inject ''b'' SELL ''200.00'' 6 NOVA, Effects, Tick 9 sample_ids]" 1 0 sample_ids]
  by (simp add: state_defs tick_defs Let_def)

section \<open>Round-robin fairness of a single core\<close>






section \<open>Collisions of cores\<close>

lemma iter_queue_length:
  "length (currentQueues (core_iteration now rate gen a t) c) \<le> length (currentQueues t c)"
  by (simp add: iter_queues split: option.splits)

lemma loop_queue_length:
  "length (currentQueues (core_loop now rate gen ids t) c) \<le> length (currentQueues t c)"
proof (induction ids arbitrary: t)
  case Nil
  then show ?case by simp
next
  case (Cons a ids)
  have "length (currentQueues (core_loop now rate gen ids (core_iteration now rate gen a t)) c)
        \<le> length (currentQueues (core_iteration now rate gen a t) c)"
    by (rule Cons.IH)
  also have "\<dots> \<le> length (currentQueues t c)"
    by (rule iter_queue_length)
  finally show ?case by simp
qed

lemma loop_items_kept:
  "set (processedItems t) \<subseteq> set (processedItems (core_loop now rate gen ids t))"
proof (induction ids arbitrary: t)
  case Nil
  then show ?case by simp
next
  case (Cons a ids)
  have "set (processedItems t) \<subseteq> set (processedItems (core_iteration now rate gen a t))"
    by (simp add: iter_items)
  also have "\<dots> \<subseteq> set (processedItems (core_loop now rate gen ids (core_iteration now rate gen a t)))"
    by (rule Cons.IH)
  finally show ?case by simp
qed

lemma iter_coreIds:
  "coreId ` set (processedItems (core_iteration now rate gen a t))
     \<subseteq> coreId ` set (processedItems t) \<union> {a}"
  by (auto simp add: iter_items log_of_def split: option.splits list.splits)

lemma loop_coreIds:
  "coreId ` set (processedItems (core_loop now rate gen ids t))
     \<subseteq> coreId ` set (processedItems t) \<union> set ids"
proof (induction ids arbitrary: t)
  case Nil
  then show ?case by simp
next
  case (Cons a ids)
  have "coreId ` set (processedItems (core_loop now rate gen ids (core_iteration now rate gen a t)))
        \<subseteq> coreId ` set (processedItems (core_iteration now rate gen a t)) \<union> set ids"
    by (rule Cons.IH)
  also have "\<dots> \<subseteq> (coreId ` set (processedItems t) \<union> {a}) \<union> set ids"
    using iter_coreIds [of now rate gen a t] by blast
  finally show ?case by auto
qed

lemma iter_strictly_increasing:
  assumes "sorted_wrt (<) (map coreId (processedItems t) @ a # ids)"
  shows "sorted_wrt (<) (map coreId (processedItems (core_iteration now rate gen a t)) @ ids)"
proof -
  have "map coreId (processedItems (core_iteration now rate gen a t)) = map coreId (processedItems t)
      \<or> map coreId (processedItems (core_iteration now rate gen a t)) = map coreId (processedItems t) @ [a]"
    by (simp add: iter_items log_of_def split: option.splits list.splits)
  then show ?thesis
  proof
    assume e: "map coreId (processedItems (core_iteration now rate gen a t)) = map coreId (processedItems t)"
    from assms show ?thesis unfolding e by (auto simp add: sorted_wrt_append)
  next
    assume e: "map coreId (processedItems (core_iteration now rate gen a t)) = map coreId (processedItems t) @ [a]"
    from assms show ?thesis unfolding e by simp
  qed
qed

lemma loop_strictly_increasing:
  "sorted_wrt (<) (map coreId (processedItems t) @ ids) \<Longrightarrow>
   sorted_wrt (<) (map coreId (processedItems (core_loop now rate gen ids t)))"
proof (induction ids arbitrary: t)
  case Nil
  then show ?case by simp
next
  case (Cons a ids)
  from iter_strictly_increasing [OF Cons.prems]
  have "sorted_wrt (<) (map coreId (processedItems (core_iteration now rate gen a t)) @ ids)" .
  from Cons.IH [OF this] show ?case by simp
qed

lemma run_cores_strictly_increasing:
  "sorted_wrt (<) (map coreId (processedItems (run_cores now gen s)))"
proof -
  have "sorted_wrt (<) [0..<cpuCount s]"
    by (simp add: sorted_wrt_iff_nth_less)
  then show ?thesis
    by (simp add: run_cores_def loop_strictly_increasing)
qed

lemma well_keyed_iff: "well_keyed q = (\<forall>c. \<forall>m\<in>set (q c). clientId m = c)"
proof
  assume w: "well_keyed q"
  show "\<forall>c. \<forall>m\<in>set (q c). clientId m = c"
  proof
    fix c
    from w show "\<forall>m\<in>set (q c). clientId m = c"
      by (cases c) (simp_all add: well_keyed_def CLIENTS_def list_all_iff)
  qed
next
  assume "\<forall>c. \<forall>m\<in>set (q c). clientId m = c"
  then show "well_keyed q"
    by (simp add: well_keyed_def CLIENTS_def list_all_iff)
qed

lemma message_of_log_of: "message_of (log_of now a m) = m"
  by (simp add: message_of_def log_of_def)

lemma clientId_log_of: "clientId (log_of now a m) = clientId m"
  by (simp add: log_of_def)

lemma iter_well_keyed:
  "well_keyed (currentQueues t) \<Longrightarrow> well_keyed (currentQueues (core_iteration now rate gen a t))"
proof -
  assume w: "well_keyed (currentQueues t)"
  have "m \<in> set (currentQueues t c)" if "m \<in> set (tl (currentQueues t c))" for m c
    using that by (cases "currentQueues t c") simp_all
  with w show ?thesis
    by (auto simp add: well_keyed_iff iter_queues split: option.splits)
qed

lemma iter_served:
  assumes "well_keyed (currentQueues t)"
  shows "served c (processedItems (core_iteration now rate gen a t))
           @ currentQueues (core_iteration now rate gen a t) c
         = served c (processedItems t) @ currentQueues t c"
proof (cases "target (currentCoreStates t) a")
  case None
  then show ?thesis by (simp add: iter_items iter_queues)
next
  case (Some c0)
  show ?thesis
  proof (cases "currentQueues t c0")
    case Nil
    then have "(currentQueues t)(c0 := tl (currentQueues t c0)) = currentQueues t"
      by auto
    with Some Nil show ?thesis by (simp add: iter_items iter_queues)
  next
    case (Cons m rest)
    from assms Cons have "clientId m = c0"
      by (simp add: well_keyed_iff)
    with Some Cons show ?thesis
      by (simp add: iter_items iter_queues served_def message_of_log_of clientId_log_of)
  qed
qed

lemma loop_served:
  "well_keyed (currentQueues t) \<Longrightarrow>
   served c (processedItems (core_loop now rate gen ids t))
     @ currentQueues (core_loop now rate gen ids t) c
   = served c (processedItems t) @ currentQueues t c"
proof (induction ids arbitrary: t)
  case Nil
  then show ?case by simp
next
  case (Cons a ids)
  from Cons.prems have "well_keyed (currentQueues (core_iteration now rate gen a t))"
    by (rule iter_well_keyed)
  from Cons.IH [OF this] iter_served [OF Cons.prems, of c now rate gen a]
  show ?case by simp
qed

lemma run_cores_served:
  "well_keyed (queuesRef s) \<Longrightarrow>
   served c (processedItems (run_cores now gen s)) @ currentQueues (run_cores now gen s) c
   = queuesRef s c"
  using loop_served [of "\<lparr>currentQueues = queuesRef s, currentCoreStates = coreStatesRef s,
        processedItems = [], ganttItems = []\<rparr>" c now "tickRate s" gen "[0..<cpuCount s]"]
  by (simp add: run_cores_def served_def)


lemma upt_split2: "i \<le> j \<Longrightarrow> j \<le> n \<Longrightarrow> [i..<n] = [i..<j] @ [j..<n]"
  by (metis le_add_diff_inverse upt_add_eq_append)

lemma upt_split_at: "i < n \<Longrightarrow> [0..<n] = [0..<i] @ i # [Suc i..<n]"
  using upt_split2 [of 0 i n] by (simp add: upt_conv_Cons)

lemma upt_split_pair:
  "i < j \<Longrightarrow> j < n \<Longrightarrow> [0..<n] = [0..<i] @ i # [Suc i..<j] @ j # [Suc j..<n]"
  using upt_split_at [of i n] upt_split2 [of "Suc i" j n]
  by (simp add: upt_conv_Cons)

lemma target_update_neq: "j \<noteq> a \<Longrightarrow> target (cs[a := x]) j = target cs j"
  by (simp add: target_def)

lemma collision_higher_core_idle:
  assumes ij: "i < j" and jn: "j < n"
    and ti: "target (currentCoreStates t) i = Some c"
    and tj: "target (currentCoreStates t) j = Some c"
    and q: "length (currentQueues t c) \<le> 1"
    and nj: "j \<notin> coreId ` set (processedItems t)"
  shows "j \<notin> coreId ` set (processedItems (core_loop now rate gen [0..<n] t))"
    and "currentQueues (core_loop now rate gen [0..<n] t) c = []"
proof -
  let ?A = "core_loop now rate gen [0..<i] t"
  let ?B = "core_iteration now rate gen i ?A"
  let ?C = "core_loop now rate gen [Suc i..<j] ?B"
  let ?D = "core_iteration now rate gen j ?C"
  let ?E = "core_loop now rate gen [Suc j..<n] ?D"
  have whole: "core_loop now rate gen [0..<n] t = ?E"
    by (simp add: upt_split_pair [OF ij jn] core_loop_append)
  have lenA: "length (currentQueues ?A c) \<le> 1"
    using loop_queue_length [of now rate gen "[0..<i]" t c] q by simp
  have tiA: "target (currentCoreStates ?A) i = Some c"
    using ti by (simp add: loop_target_other)
  have tjA: "target (currentCoreStates ?A) j = Some c"
    using tj ij by (simp add: loop_target_other)
  have idA: "j \<notin> coreId ` set (processedItems ?A)"
    using loop_coreIds [of now rate gen "[0..<i]" t] nj ij by auto
  have qB: "currentQueues ?B c = []"
    using lenA tiA by (cases "currentQueues ?A c") (simp_all add: iter_queues)
  have tjB: "target (currentCoreStates ?B) j = Some c"
    using tjA ij by (simp add: iter_states target_update_neq)
  have idB: "j \<notin> coreId ` set (processedItems ?B)"
    using iter_coreIds [of now rate gen i ?A] idA ij by auto
  have qC: "currentQueues ?C c = []"
    using qB by (rule loop_queue_empty)
  have tjC: "target (currentCoreStates ?C) j = Some c"
    using tjB by (simp add: loop_target_other)
  have idC: "j \<notin> coreId ` set (processedItems ?C)"
    using loop_coreIds [of now rate gen "[Suc i..<j]" ?B] idB by auto
  have itD: "processedItems ?D = processedItems ?C"
    using tjC qC by (simp add: iter_items)
  have qD: "currentQueues ?D c = []"
    using tjC qC by (simp add: iter_queues)
  have idE: "j \<notin> coreId ` set (processedItems ?E)"
    using loop_coreIds [of now rate gen "[Suc j..<n]" ?D] idC itD by auto
  have qE: "currentQueues ?E c = []"
    using qD by (rule loop_queue_empty)
  show "j \<notin> coreId ` set (processedItems (core_loop now rate gen [0..<n] t))"
    unfolding whole by (fact idE)
  show "currentQueues (core_loop now rate gen [0..<n] t) c = []"
    unfolding whole by (fact qE)
qed

lemma collision_lowest_core_served:
  assumes "i < n"
    and ti: "target (currentCoreStates t) i = Some c"
    and q: "currentQueues t c = [m]"
    and low: "\<forall>h<i. target (currentCoreStates t) h \<noteq> Some c"
  shows "log_of now i m \<in> set (processedItems (core_loop now rate gen [0..<n] t))"
proof -
  let ?A = "core_loop now rate gen [0..<i] t"
  let ?B = "core_iteration now rate gen i ?A"
  have whole: "core_loop now rate gen [0..<n] t = core_loop now rate gen [Suc i..<n] ?B"
    by (simp add: upt_split_at [OF assms(1)] core_loop_append)
  have qA: "currentQueues ?A c = [m]"
    using loop_queue_untargeted [of "[0..<i]" t c now rate gen] low q by simp
  have tiA: "target (currentCoreStates ?A) i = Some c"
    using ti by (simp add: loop_target_other)
  have "log_of now i m \<in> set (processedItems ?B)"
    using qA tiA by (simp add: iter_items)
  then show ?thesis
    unfolding whole using loop_items_kept [of ?B now rate gen "[Suc i..<n]"] by blast
qed

text \<open>
  Claim C2 (multi-core collision determinism). Let the refs agree with the React state,
  let cores \<open>i < j\<close>, both below \<open>cpuCount\<close>, target the same client \<open>c\<close>, and let the queue
  of \<open>c\<close> hold exactly one message \<open>m\<close>. Then the batch of the tick has no record of core
  \<open>j\<close>; when no core below \<open>i\<close> targets \<open>c\<close> (in particular when \<open>i\<close> and \<open>j\<close> are the only two
  that collide), the batch has the record of core \<open>i\<close> for \<open>m\<close>; the queue of \<open>c\<close> is empty
  afterwards. The records of a batch come in strictly increasing \<open>coreId\<close> order, so no
  core has two records. When every queued message carries the \<open>clientId\<close> of its queue,
  every queue before the tick is the list of the messages served from it followed by
  the queue after the tick, so no message is dequeued twice; here exactly \<open>m\<close> is served
  from \<open>c\<close>.
\<close>

theorem collision_lower_core_wins:
  assumes "synced s" and "i < j" and "j < cpuCount s"
    and "target (coreStates s) i = Some c" and "target (coreStates s) j = Some c"
    and "queues s c = [m]"
  shows "(\<forall>r\<in>set (processedItems (run_cores now gen s)). coreId r \<noteq> j)
       \<and> ((\<forall>h<i. target (coreStates s) h \<noteq> Some c) \<longrightarrow>
            log_of now i m \<in> set (processedItems (run_cores now gen s)))
       \<and> queues (tick now gen s) c = []
       \<and> sorted_wrt (<) (map coreId (processedItems (run_cores now gen s)))
       \<and> (well_keyed (queues s) \<longrightarrow>
            (\<forall>c'. served c' (processedItems (run_cores now gen s)) @ queues (tick now gen s) c'
                  = queues s c'))
       \<and> (well_keyed (queues s) \<longrightarrow> served c (processedItems (run_cores now gen s)) = [m])"
proof -
  let ?t = "\<lparr>currentQueues = queuesRef s, currentCoreStates = coreStatesRef s,
        processedItems = [], ganttItems = []\<rparr>"
  from assms(1) have qr: "queuesRef s = queues s" and cr: "coreStatesRef s = coreStates s"
    by (simp_all add: synced_def)
  have ti: "target (currentCoreStates ?t) i = Some c" and tj: "target (currentCoreStates ?t) j = Some c"
    and q1: "length (currentQueues ?t c) \<le> 1" and qm: "currentQueues ?t c = [m]"
    and nj: "j \<notin> coreId ` set (processedItems ?t)"
    using assms(4-6) qr cr by simp_all
  note high = collision_higher_core_idle [OF assms(2,3) ti tj q1 nj, of now "tickRate s" gen]
  have a: "\<forall>r\<in>set (processedItems (run_cores now gen s)). coreId r \<noteq> j"
    using high(1) by (auto simp add: run_cores_def)
  have b: "log_of now i m \<in> set (processedItems (run_cores now gen s))"
    if "\<forall>h<i. target (coreStates s) h \<noteq> Some c"
  proof -
    from that cr have low: "\<forall>h<i. target (currentCoreStates ?t) h \<noteq> Some c" by simp
    from assms(2,3) have "i < cpuCount s" by simp
    from collision_lowest_core_served [OF this ti qm low, of now "tickRate s" gen]
    show ?thesis by (simp add: run_cores_def)
  qed
  have c: "queues (tick now gen s) c = []"
    using high(2) by (simp add: tick_queues run_cores_def)
  have d: "sorted_wrt (<) (map coreId (processedItems (run_cores now gen s)))"
    by (rule run_cores_strictly_increasing)
  have e: "served c' (processedItems (run_cores now gen s)) @ queues (tick now gen s) c' = queues s c'"
    if "well_keyed (queues s)" for c'
    using that run_cores_served [of s c' now gen] qr by (simp add: tick_queues)
  have f: "served c (processedItems (run_cores now gen s)) = [m]" if "well_keyed (queues s)"
    using e [OF that, of c] c assms(6) by simp
  from a b c d e f show ?thesis by blast
qed

theorem collision_lower_core_wins_witness:
  "synced (run [Inject ''a'' BUY ''1.00'' 1 APEX, Effects] (initializeSystem 5 initial_state))
   \<and> target (coreStates (run [Inject ''a'' BUY ''1.00'' 1 APEX, Effects] (initializeSystem 5 initial_state))) 0
       = Some APEX
   \<and> target (coreStates (run [Inject ''a'' BUY ''1.00'' 1 APEX, Effects] (initializeSystem 5 initial_state))) 4
       = Some APEX
   \<and> length (queues (run [Inject ''a'' BUY ''1.00'' 1 APEX, Effects] (initializeSystem 5 initial_state)) APEX) = 1
   \<and> well_keyed (queues (run [Inject ''a'' BUY ''1.00'' 1 APEX, Effects] (initializeSystem 5 initial_state)))
   \<and> map coreId (processedItems (run_cores 7 sample_ids
        (run [Inject ''a'' BUY ''1.00'' 1 APEX, Effects] (initializeSystem 5 initial_state)))) = [0]
   \<and> map msg_id (processedItems (run_cores 7 sample_ids
        (run [Inject ''a'' BUY ''1.00'' 1 APEX, Effects] (initializeSystem 5 initial_state)))) = [''a'']
   \<and> queues (tick 7 sample_ids
        (run [Inject ''a'' BUY ''1.00'' 1 APEX, Effects] (initializeSystem 5 initial_state))) APEX = []"
proof -
  let ?s = "run [Inject ''a'' BUY ''1.00'' 1 APEX, Effects] (initializeSystem 5 initial_state)"
  let ?m = "\<lparr>msg_id = ''a'', clientId = APEX, content = ''BUY @ 1.00'', timestamp = 1, msg_type = BUY\<rparr>"
  have sy: "synced ?s"
    by (simp add: synced_def state_defs Let_def)
  have cs: "coreStates ?s = [\<lparr>clientIndex = 0\<rparr>, \<lparr>clientIndex = 1\<rparr>, \<lparr>clientIndex = 2\<rparr>,
      \<lparr>clientIndex = 3\<rparr>, \<lparr>clientIndex = 0\<rparr>]"
    by (simp add: state_defs Let_def upt_rec)
  have cp: "cpuCount ?s = 5"
    by (simp add: state_defs Let_def)
  have t0: "target (coreStates ?s) 0 = Some APEX" and t4: "target (coreStates ?s) 4 = Some APEX"
    unfolding cs by (simp_all add: target_def CLIENTS_at_def CLIENTS_def)
  have q: "queues ?s APEX = [?m]"
    by (simp add: state_defs Let_def)
  have wk: "well_keyed (queues ?s)"
    by (simp add: well_keyed_def state_defs Let_def)
  have lt: "(0::nat) < 4" "4 < cpuCount ?s"
    unfolding cp by simp_all
  from collision_lower_core_wins [OF sy lt t0 t4 q, of 7 sample_ids]
  have e: "queues (tick 7 sample_ids ?s) APEX = []"
    by blast
  have ev: "map coreId (processedItems (run_cores 7 sample_ids ?s)) = [0]"
    "map msg_id (processedItems (run_cores 7 sample_ids ?s)) = [''a'']"
    by (simp_all add: state_defs tick_defs Let_def upt_rec)
  from sy t0 t4 q wk ev e show ?thesis by simp
qed

end
